theory Spec2Isabelle
  imports Main "HOL-Library.Word" "HOL-Library.Multiset" "HOL-Library.Sublist"
begin

section \<open>Inline completion provider of the Ollama extension\<close>

text \<open>
  A shallow embedding of \<^verbatim>\<open>src/extensions/ollama/src/completionProvider.ts\<close>
  (class \<^verbatim>\<open>OllamaInlineCompletionProvider\<close>).

  A JavaScript string is a sequence of UTF-16 code units, so a string is a list of
  16-bit words; \<open>js\<close> embeds an ASCII literal. \<^verbatim>\<open>Date.now()\<close> is an integer
  number of milliseconds and is passed to every operation that reads the clock.
\<close>

type_synonym jschar = "16 word"
type_synonym jsstring = "jschar list"

definition js :: "string \<Rightarrow> jsstring" where
  "js s = map of_char s"

subsection \<open>The cache\<close>

text \<open>\<^verbatim>\<open>interface CompletionCache { key: string; completion: string; timestamp: number; }\<close>\<close>

record CompletionCache =
  key :: jsstring
  completion :: jsstring
  timestamp :: int

definition maxCacheSize :: nat where
  "maxCacheSize = 50"

definition cacheExpiryMs :: int where
  "cacheExpiryMs = 300000"

text \<open>
  \<^verbatim>\<open>getCachedCompletion(key)\<close>: drops the expired entries from \<^verbatim>\<open>this.cache\<close>, then
  looks for the first entry with the key. The result is the pair of the returned value
  (\<open>None\<close> for \<^verbatim>\<open>null\<close>) and the new value of \<^verbatim>\<open>this.cache\<close>.
\<close>

definition getCachedCompletion ::
  "int \<Rightarrow> jsstring \<Rightarrow> CompletionCache list \<Rightarrow> jsstring option \<times> CompletionCache list" where
  "getCachedCompletion now k cache =
     (let cache' = filter (\<lambda>entry. now - timestamp entry < cacheExpiryMs) cache;
          cached = find (\<lambda>entry. key entry = k) cache'
      in (case cached of Some entry \<Rightarrow> Some (completion entry) | None \<Rightarrow> None, cache'))"

text \<open>
  \<^verbatim>\<open>setCachedCompletion(key, completion)\<close>: removes the entry with the same key, pushes
  the new entry, and on overflow sorts by timestamp, newest first
  (\<^verbatim>\<open>Array.prototype.sort\<close> is stable, as \<open>sort_key\<close> is), and keeps the first
  \<open>maxCacheSize\<close> entries.
\<close>

definition setCachedCompletion ::
  "int \<Rightarrow> jsstring \<Rightarrow> jsstring \<Rightarrow> CompletionCache list \<Rightarrow> CompletionCache list" where
  "setCachedCompletion now k c cache =
     (let cache1 = filter (\<lambda>entry. key entry \<noteq> k) cache;
          cache2 = cache1 @ [\<lparr>key = k, completion = c, timestamp = now\<rparr>]
      in if length cache2 > maxCacheSize
         then take maxCacheSize (sort_key (\<lambda>entry. - timestamp entry) cache2)
         else cache2)"

definition clearCache :: "CompletionCache list \<Rightarrow> CompletionCache list" where
  "clearCache cache = []"

text \<open>The operations that touch the store, and a run of them from a given store.\<close>

datatype cacheOp =
  Lookup int jsstring
  | Store int jsstring jsstring
  | Clear

fun applyOp :: "CompletionCache list \<Rightarrow> cacheOp \<Rightarrow> CompletionCache list" where
  "applyOp cache (Lookup now k) = snd (getCachedCompletion now k cache)"
| "applyOp cache (Store now k c) = setCachedCompletion now k c cache"
| "applyOp cache Clear = clearCache cache"

definition applyOps :: "CompletionCache list \<Rightarrow> cacheOp list \<Rightarrow> CompletionCache list" where
  "applyOps cache ops = foldl applyOp cache ops"

text \<open>A run of inserts only: each element is the clock reading, the key and the completion.\<close>

definition entryOf :: "int \<times> jsstring \<times> jsstring \<Rightarrow> CompletionCache" where
  "entryOf i = (case i of (now, k, c) \<Rightarrow> \<lparr>key = k, completion = c, timestamp = now\<rparr>)"

definition insertOne :: "CompletionCache list \<Rightarrow> int \<times> jsstring \<times> jsstring \<Rightarrow> CompletionCache list" where
  "insertOne cache i = (case i of (now, k, c) \<Rightarrow> setCachedCompletion now k c cache)"

definition inserts :: "(int \<times> jsstring \<times> jsstring) list \<Rightarrow> CompletionCache list" where
  "inserts ins = foldl insertOne [] ins"


text \<open>
  The overflow branch of \<open>setCachedCompletion\<close> sorts newest first; \<open>retainsNewest\<close>
  says of a store \<open>c\<close> and of the entries \<open>made\<close> created so far that \<open>c\<close> holds
  \<open>maxCacheSize\<close> of them (all of them, while they are fewer) and that no entry left out
  is newer than a retained one.
\<close>

definition newestFirst :: "CompletionCache list \<Rightarrow> CompletionCache list" where
  "newestFirst ys = sort_key (\<lambda>entry. - timestamp entry) ys"

definition retainsNewest :: "CompletionCache list \<Rightarrow> CompletionCache list \<Rightarrow> bool" where
  "retainsNewest made c =
     (mset c \<subseteq># mset made \<and> length c = min (length made) maxCacheSize \<and>
      (\<forall>d \<in># mset made - mset c. \<forall>r \<in> set c. timestamp d \<le> timestamp r))"


text \<open>Sample runs: \<open>n\<close> inserts with \<open>n\<close> different keys, and \<open>n\<close> inserts of one key.\<close>

definition distinctInserts :: "nat \<Rightarrow> (int \<times> jsstring \<times> jsstring) list" where
  "distinctInserts n = map (\<lambda>i. (int i, replicate i 0x61, js ''x'')) [0..<n]"

definition sameKeyInserts :: "nat \<Rightarrow> (int \<times> jsstring \<times> jsstring) list" where
  "sameKeyInserts n = map (\<lambda>i. (int i, js ''k'', js ''x'')) [0..<n]"

subsection \<open>Strings\<close>

text \<open>
  The characters that \<^verbatim>\<open>String.prototype.trim\<close> removes and that \<^verbatim>\<open>\s\<close> matches:
  the WhiteSpace and LineTerminator code points of ECMAScript, all of them single code units.
\<close>

definition isWhiteSpace :: "jschar \<Rightarrow> bool" where
  "isWhiteSpace c =
     (c = 0x09 \<or> c = 0x0A \<or> c = 0x0B \<or> c = 0x0C \<or> c = 0x0D \<or> c = 0x20 \<or> c = 0xA0 \<or>
      c = 0x1680 \<or> (0x2000 \<le> c \<and> c \<le> 0x200A) \<or> c = 0x2028 \<or> c = 0x2029 \<or>
      c = 0x202F \<or> c = 0x205F \<or> c = 0x3000 \<or> c = 0xFEFF)"

text \<open>\<^verbatim>\<open>\w\<close> without the unicode flag: \<^verbatim>\<open>[A-Za-z0-9_]\<close>.\<close>

definition isWordChar :: "jschar \<Rightarrow> bool" where
  "isWordChar c =
     ((0x30 \<le> c \<and> c \<le> 0x39) \<or> (0x41 \<le> c \<and> c \<le> 0x5A) \<or> c = 0x5F \<or>
      (0x61 \<le> c \<and> c \<le> 0x7A))"

definition trim :: "jsstring \<Rightarrow> jsstring" where
  "trim s = rev (dropWhile isWhiteSpace (rev (dropWhile isWhiteSpace s)))"

definition startsWith :: "jsstring \<Rightarrow> jsstring \<Rightarrow> bool" where
  "startsWith s p = (take (length p) s = p)"

text \<open>
  Matching under the \<^verbatim>\<open>i\<close> flag (without the unicode flag) compares the upper-case
  forms of single code units, and never lets a code unit from 128 on stand for an ASCII
  one: against the ASCII patterns of this file only the two cases of an ASCII letter are
  identified.
\<close>

definition asciiLower :: "jschar \<Rightarrow> jschar" where
  "asciiLower c = (if 0x41 \<le> c \<and> c \<le> 0x5A then c + 0x20 else c)"

definition startsWithIgnoreCase :: "jsstring \<Rightarrow> jsstring \<Rightarrow> bool" where
  "startsWithIgnoreCase s p = (map asciiLower (take (length p) s) = p)"

definition newline :: jschar where
  "newline = 0x0A"

text \<open>\<^verbatim>\<open>split('\n')\<close> and \<^verbatim>\<open>join('\n')\<close>.\<close>

fun splitLines :: "jsstring \<Rightarrow> jsstring list" where
  "splitLines [] = [[]]"
| "splitLines (c # cs) =
     (if c = newline then [] # splitLines cs
      else (case splitLines cs of [] \<Rightarrow> [[c]] | l # ls \<Rightarrow> (c # l) # ls))"

fun joinLines :: "jsstring list \<Rightarrow> jsstring" where
  "joinLines [] = []"
| "joinLines [l] = l"
| "joinLines (l # ls) = l @ newline # joinLines ls"

text \<open>The second half of \<open>trim\<close>.\<close>

definition trimEnd :: "jsstring \<Rightarrow> jsstring" where
  "trimEnd s = rev (dropWhile isWhiteSpace (rev s))"

subsection \<open>The response sanitizer\<close>

text \<open>The three backquotes of a Markdown fence, U+0060 each.\<close>

definition fence :: jsstring where
  "fence = [0x60, 0x60, 0x60]"

text \<open>
  \<^verbatim>\<open>replace(/^```[\w]*\n/, '')\<close>: the fence at the start, the longest run of word
  characters, and a newline (a shorter run cannot be followed by a newline, so the greedy
  match is the only one).
\<close>

definition stripFenceOpener :: "jsstring \<Rightarrow> jsstring" where
  "stripFenceOpener s =
     (if startsWith s fence
      then (case dropWhile isWordChar (drop 3 s) of
              [] \<Rightarrow> s
            | c # rest \<Rightarrow> if c = newline then rest else s)
      else s)"

text \<open>
  \<^verbatim>\<open>replace(/\n```$/, '')\<close>: without the multiline flag \<^verbatim>\<open>$\<close> is the end of the
  input, so the only possible match is the last four code units.
\<close>

definition stripFenceCloser :: "jsstring \<Rightarrow> jsstring" where
  "stripFenceCloser s =
     (if 4 \<le> length s \<and> drop (length s - 4) s = newline # fence
      then take (length s - 4) s
      else s)"

text \<open>
  \<^verbatim>\<open>isExplanatoryLine(line)\<close>: one of the two patterns matches \<^verbatim>\<open>line.trim()\<close>:
  \<^verbatim>\<open>/^(this|the|here|now|then|explanation|note|important)/i\<close> or
  \<^verbatim>\<open>/^(\/\*|\/\/|\#)\s*(explanation|note|this)/i\<close>.
\<close>

definition discourseMarkers :: "jsstring list" where
  "discourseMarkers =
     map js [''this'', ''the'', ''here'', ''now'', ''then'', ''explanation'', ''note'', ''important'']"

definition commentMarkers :: "jsstring list" where
  "commentMarkers = map js [''/*'', ''//'', ''#'']"

definition commentedMarkers :: "jsstring list" where
  "commentedMarkers = map js [''explanation'', ''note'', ''this'']"

definition matchesDiscourse :: "jsstring \<Rightarrow> bool" where
  "matchesDiscourse t = list_ex (startsWithIgnoreCase t) discourseMarkers"

definition matchesCommented :: "jsstring \<Rightarrow> bool" where
  "matchesCommented t =
     list_ex (\<lambda>m. startsWith t m \<and>
        list_ex (startsWithIgnoreCase (dropWhile isWhiteSpace (drop (length m) t))) commentedMarkers)
       commentMarkers"

definition isExplanatoryLine :: "jsstring \<Rightarrow> bool" where
  "isExplanatoryLine line = (matchesDiscourse (trim line) \<or> matchesCommented (trim line))"

text \<open>
  \<^verbatim>\<open>cleanCompletion(completion, languageId)\<close>. The loop that pushes lines until the
  first explanatory one is \<open>takeWhile\<close>.
\<close>

definition cleanCompletion :: "jsstring \<Rightarrow> jsstring \<Rightarrow> jsstring" where
  "cleanCompletion rawCompletion languageId =
     (let cleaned = trim rawCompletion;
          cleaned = stripFenceCloser (stripFenceOpener cleaned);
          lines = splitLines cleaned;
          codeLines = takeWhile (\<lambda>line. \<not> isExplanatoryLine line) lines;
          cleaned = joinLines codeLines
      in if length cleaned > 500 then take 500 cleaned else cleaned)"

text \<open>What \<open>cleanCompletion\<close> leaves alone: its first two steps find nothing to remove.\<close>

definition isTrimmed :: "jsstring \<Rightarrow> bool" where
  "isTrimmed s = (trim s = s)"

definition hasNoOuterFence :: "jsstring \<Rightarrow> bool" where
  "hasNoOuterFence s = (stripFenceOpener s = s \<and> stripFenceCloser s = s)"

text \<open>A fence opener: the fence, word characters, a newline.\<close>

definition isFenceOpener :: "jsstring \<Rightarrow> bool" where
  "isFenceOpener a =
     (startsWith a fence \<and> 4 \<le> length a \<and> last a = newline \<and>
      list_all isWordChar (butlast (drop 3 a)))"

subsection \<open>The eligibility filter\<close>

datatype error = TypeError

text \<open>
  \<^verbatim>\<open>commentPatterns\<close> is an object literal, and \<^verbatim>\<open>commentPatterns[languageId]\<close> also
  finds the properties every object inherits from \<^verbatim>\<open>Object.prototype\<close>. Each of them is
  a function or an object, so \<^verbatim>\<open>|| []\<close> keeps it, and calling its missing
  \<^verbatim>\<open>some\<close> throws a TypeError.
\<close>

definition commentPatterns :: "(jsstring \<times> jsstring list) list" where
  "commentPatterns =
     [(js ''javascript'', [js ''//'', js ''/*'']),
      (js ''typescript'', [js ''//'', js ''/*'']),
      (js ''python'', [js ''#'']),
      (js ''java'', [js ''//'', js ''/*'']),
      (js ''csharp'', [js ''//'', js ''/*'']),
      (js ''go'', [js ''//'', js ''/*'']),
      (js ''rust'', [js ''//'', js ''/*'']),
      (js ''cpp'', [js ''//'', js ''/*'']),
      (js ''c'', [js ''//'', js ''/*''])]"

definition objectPrototypeKeys :: "jsstring list" where
  "objectPrototypeKeys =
     map js [''constructor'', ''hasOwnProperty'', ''isPrototypeOf'', ''propertyIsEnumerable'',
       ''toLocaleString'', ''toString'', ''valueOf'', ''__proto__'', ''__defineGetter__'',
       ''__defineSetter__'', ''__lookupGetter__'', ''__lookupSetter__'']"

definition isInComment :: "jsstring \<Rightarrow> jsstring \<Rightarrow> error + bool" where
  "isInComment linePrefix languageId =
     (case map_of commentPatterns languageId of
        Some patterns \<Rightarrow> Inr (list_ex (\<lambda>pattern. startsWith (trim linePrefix) pattern) patterns)
      | None \<Rightarrow> if languageId \<in> set objectPrototypeKeys then Inl TypeError else Inr False)"

text \<open>
  \<^verbatim>\<open>line.text[i]\<close> is a one-character string, or \<^verbatim>\<open>undefined\<close> out of range;
  \<^verbatim>\<open>/\w/.test\<close> turns \<^verbatim>\<open>undefined\<close> into the string "undefined", which has a word
  character.
\<close>

datatype jsvalue = Str jsstring | Undefined

definition charAt :: "jsstring \<Rightarrow> nat \<Rightarrow> jsvalue" where
  "charAt s i = (if i < length s then Str [s ! i] else Undefined)"

definition truthy :: "jsvalue \<Rightarrow> bool" where
  "truthy v = (case v of Str s \<Rightarrow> s \<noteq> [] | Undefined \<Rightarrow> False)"

definition testWord :: "jsvalue \<Rightarrow> bool" where
  "testWord v = (case v of Str s \<Rightarrow> list_ex isWordChar s | Undefined \<Rightarrow> True)"

text \<open>
  \<^verbatim>\<open>shouldProvideCompletion(document, position, context)\<close>, from the text of the
  cursor's line, \<^verbatim>\<open>position.character\<close> and \<^verbatim>\<open>document.languageId\<close>.
\<close>

definition shouldProvideCompletion :: "jsstring \<Rightarrow> nat \<Rightarrow> jsstring \<Rightarrow> error + bool" where
  "shouldProvideCompletion lineText character languageId =
     (let linePrefix = take character lineText in
      case isInComment linePrefix languageId of
        Inl e \<Rightarrow> Inl e
      | Inr True \<Rightarrow> Inr False
      | Inr False \<Rightarrow>
          if length (trim linePrefix) < 3 then Inr False
          else
            let charBefore = (if character > 0 then charAt lineText (character - 1) else Str []);
                charAfter = (if character < length lineText then charAt lineText character else Str [])
            in if truthy charAfter \<and> testWord charAfter \<and> testWord charBefore
               then Inr False
               else Inr True)"

text \<open>The comment openers the table has for a language: none for one it does not list.\<close>

definition commentOpeners :: "jsstring \<Rightarrow> jsstring list" where
  "commentOpeners languageId = (case map_of commentPatterns languageId of Some ps \<Rightarrow> ps | None \<Rightarrow> [])"

subsection \<open>Cache keys and prompts\<close>

text \<open>
  \<^verbatim>\<open>simpleHash(str)\<close>: \<^verbatim>\<open>hash = ((hash << 5) - hash) + char; hash = hash & hash\<close>
  keeps a signed 32-bit integer, printed in base 36 (a minus sign, then the digits of the
  absolute value).
\<close>

definition hashStep :: "32 word \<Rightarrow> jschar \<Rightarrow> 32 word" where
  "hashStep hash c = (push_bit 5 hash - hash) + ucast c"

definition digit36 :: "nat \<Rightarrow> jschar" where
  "digit36 d = (if d < 10 then 0x30 + of_nat d else 0x61 + of_nat (d - 10))"

function toBase36 :: "nat \<Rightarrow> jsstring" where
  "toBase36 n = (if n < 36 then [digit36 n] else toBase36 (n div 36) @ [digit36 (n mod 36)])"
  by pat_completeness auto
termination
  by (relation "measure (\<lambda>n. n)") auto

definition toString36 :: "int \<Rightarrow> jsstring" where
  "toString36 i = (if i < 0 then 0x2D # toBase36 (nat (- i)) else toBase36 (nat i))"

definition simpleHash :: "jsstring \<Rightarrow> jsstring" where
  "simpleHash str = toString36 (sint (foldl hashStep 0 str))"

definition createCacheKey :: "jsstring \<Rightarrow> jsstring \<Rightarrow> jsstring" where
  "createCacheKey contextText languageId = languageId @ js '':'' @ simpleHash contextText"

text \<open>\<^verbatim>\<open>OllamaService.buildCompletionPrompt(context, language)\<close>.\<close>

definition buildCompletionPrompt :: "jsstring \<Rightarrow> jsstring \<Rightarrow> jsstring" where
  "buildCompletionPrompt contextText language =
     js ''Complete the following '' @ language @
     js '' code. Only provide the completion, no explanations:'' @ [newline, newline] @ contextText"

subsection \<open>The request coordinator\<close>

text \<open>
  The provider runs on one event loop. Its state is the three fields of the class together
  with what the event loop holds for it: the timeouts that are set and have not fired, the
  calls of \<^verbatim>\<open>generateCompletions\<close> suspended at the \<^verbatim>\<open>await\<close> of the backend, and
  the promises that \<^verbatim>\<open>provideInlineCompletionItems\<close> has returned and that are settled.
  Promises and timeouts are numbered as they are created. What the host supplies when the
  code asks for it (the configuration, the text of the document, the clock, the token's
  \<^verbatim>\<open>isCancellationRequested\<close>) is an argument of the step that reads it. The delay of a
  timeout is not modelled: a timeout that is set fires at some later step, or is cleared.
\<close>

record Request =
  promise :: nat
  docLanguage :: jsstring
  cursor :: "nat \<times> nat"

record InlineCompletionItem =
  insertText :: jsstring
  insertRange :: "(nat \<times> nat) \<times> (nat \<times> nat)"

datatype settlement = Resolved "InlineCompletionItem list" | Rejected error

record Provider =
  cache :: "CompletionCache list"
  isGenerating :: bool
  debounceTimer :: "nat option"
  timers :: "(nat \<times> Request) list"
  nextTimer :: nat
  awaiting :: "(Request \<times> jsstring) list"
  settled :: "(nat \<times> settlement) list"
  nextPromise :: nat
  backendCalls :: "(nat \<times> jsstring) list"

definition initialProvider :: Provider where
  "initialProvider =
     \<lparr>cache = [], isGenerating = False, debounceTimer = None, timers = [], nextTimer = 0,
      awaiting = [], settled = [], nextPromise = 0, backendCalls = []\<rparr>"

definition settle :: "Provider \<Rightarrow> Request \<Rightarrow> settlement \<Rightarrow> Provider" where
  "settle w req s = w\<lparr>settled := settled w @ [(promise req, s)]\<rparr>"

definition clearTimeout :: "nat \<Rightarrow> (nat \<times> Request) list \<Rightarrow> (nat \<times> Request) list" where
  "clearTimeout h ts = filter (\<lambda>t. fst t \<noteq> h) ts"

definition itemAt :: "jsstring \<Rightarrow> Request \<Rightarrow> InlineCompletionItem" where
  "itemAt str req = \<lparr>insertText = str, insertRange = (cursor req, cursor req)\<rparr>"

text \<open>
  \<^verbatim>\<open>provideInlineCompletionItems(document, position, context, token)\<close>: the call
  creates the promise it returns. An early \<^verbatim>\<open>return []\<close> resolves it at once, an
  exception of the filter rejects it, and otherwise the timeout that is set holds the only
  reference to its \<^verbatim>\<open>resolve\<close>.
\<close>

definition provideInlineCompletionItems ::
  "Provider \<Rightarrow> jsstring \<Rightarrow> nat \<times> nat \<Rightarrow> jsstring \<Rightarrow> bool \<Rightarrow> bool \<Rightarrow> Provider" where
  "provideInlineCompletionItems w languageId position lineText isEnabled autoCompletionEnabled =
     (let req = \<lparr>promise = nextPromise w, docLanguage = languageId, cursor = position\<rparr>;
          w = w\<lparr>nextPromise := Suc (nextPromise w)\<rparr>
      in if \<not> isEnabled \<or> \<not> autoCompletionEnabled \<or> isGenerating w
         then settle w req (Resolved [])
         else
           case shouldProvideCompletion lineText (snd position) languageId of
             Inl e \<Rightarrow> settle w req (Rejected e)
           | Inr False \<Rightarrow> settle w req (Resolved [])
           | Inr True \<Rightarrow>
               let pendingTimers =
                     (case debounceTimer w of
                        Some h \<Rightarrow> clearTimeout h (timers w)
                      | None \<Rightarrow> timers w);
                   h = nextTimer w
               in w\<lparr>timers := pendingTimers @ [(h, req)], debounceTimer := Some h,
                     nextTimer := Suc h\<rparr>)"

text \<open>
  \<^verbatim>\<open>generateCompletions\<close> from the \<^verbatim>\<open>try\<close> on, up to the \<^verbatim>\<open>await\<close>: the flag is
  set, the token is read a first time, and the backend is called. The \<^verbatim>\<open>finally\<close>
  clears the flag on the early return.
\<close>

definition startGeneration ::
  "Provider \<Rightarrow> Request \<Rightarrow> jsstring \<Rightarrow> jsstring \<Rightarrow> bool \<Rightarrow> Provider" where
  "startGeneration w req cacheKey contextText isCancellationRequested =
     (let w = w\<lparr>isGenerating := True\<rparr>
      in if isCancellationRequested
         then settle (w\<lparr>isGenerating := False\<rparr>) req (Resolved [])
         else w\<lparr>backendCalls := backendCalls w @
                   [(promise req, buildCompletionPrompt contextText (docLanguage req))],
                 awaiting := awaiting w @ [(req, cacheKey)]\<rparr>)"

text \<open>
  \<^verbatim>\<open>generateCompletions(document, position, token)\<close> up to its first suspension: the
  lookup in the cache, and on a miss (or an empty cached string, which is falsy) the start
  of a generation.
\<close>

definition generateCompletions ::
  "Provider \<Rightarrow> Request \<Rightarrow> jsstring \<Rightarrow> int \<Rightarrow> bool \<Rightarrow> Provider" where
  "generateCompletions w req contextText now isCancellationRequested =
     (let cacheKey = createCacheKey contextText (docLanguage req);
          looked = getCachedCompletion now cacheKey (cache w);
          w = w\<lparr>cache := snd looked\<rparr>
      in case fst looked of
           Some cachedCompletion \<Rightarrow>
             if cachedCompletion \<noteq> []
             then settle w req (Resolved [itemAt cachedCompletion req])
             else startGeneration w req cacheKey contextText isCancellationRequested
         | None \<Rightarrow> startGeneration w req cacheKey contextText isCancellationRequested)"

text \<open>
  The rest of \<^verbatim>\<open>generateCompletions\<close>, when the backend call has returned a string
  (\<open>Some\<close>) or thrown (\<open>None\<close>): the token is read a second time, the completion is
  cleaned, an empty one is dropped, any other is cached and returned. The \<^verbatim>\<open>finally\<close>
  clears the flag on every path.
\<close>

definition resumeGeneration ::
  "Provider \<Rightarrow> Request \<Rightarrow> jsstring \<Rightarrow> jsstring option \<Rightarrow> int \<Rightarrow> bool \<Rightarrow> Provider" where
  "resumeGeneration w req cacheKey response now isCancellationRequested =
     (case response of
        None \<Rightarrow> settle (w\<lparr>isGenerating := False\<rparr>) req (Resolved [])
      | Some rawCompletion \<Rightarrow>
          if isCancellationRequested
          then settle (w\<lparr>isGenerating := False\<rparr>) req (Resolved [])
          else
            let cleanedCompletion = cleanCompletion rawCompletion (docLanguage req)
            in if length cleanedCompletion = 0
               then settle (w\<lparr>isGenerating := False\<rparr>) req (Resolved [])
               else settle
                      (w\<lparr>cache := setCachedCompletion now cacheKey cleanedCompletion (cache w),
                         isGenerating := False\<rparr>)
                      req (Resolved [itemAt cleanedCompletion req]))"

text \<open>The callback of a timeout runs if the timeout is still set, and only once.\<close>

definition fireTimer :: "Provider \<Rightarrow> nat \<Rightarrow> jsstring \<Rightarrow> int \<Rightarrow> bool \<Rightarrow> Provider" where
  "fireTimer w h contextText now isCancellationRequested =
     (case map_of (timers w) h of
        None \<Rightarrow> w
      | Some req \<Rightarrow>
          generateCompletions (w\<lparr>timers := clearTimeout h (timers w)\<rparr>) req contextText now
            isCancellationRequested)"

text \<open>The backend call of the request with promise \<open>p\<close> ends.\<close>

definition backendDone :: "Provider \<Rightarrow> nat \<Rightarrow> jsstring option \<Rightarrow> int \<Rightarrow> bool \<Rightarrow> Provider" where
  "backendDone w p response now isCancellationRequested =
     (case find (\<lambda>a. promise (fst a) = p) (awaiting w) of
        None \<Rightarrow> w
      | Some a \<Rightarrow>
          resumeGeneration (w\<lparr>awaiting := filter (\<lambda>a. promise (fst a) \<noteq> p) (awaiting w)\<rparr>)
            (fst a) (snd a) response now isCancellationRequested)"

datatype event =
  Provide jsstring "nat \<times> nat" jsstring bool bool
  | Fire nat jsstring int bool
  | BackendDone nat "jsstring option" int bool
  | ClearCache

fun step :: "Provider \<Rightarrow> event \<Rightarrow> Provider" where
  "step w (Provide languageId position lineText isEnabled autoCompletionEnabled) =
     provideInlineCompletionItems w languageId position lineText isEnabled autoCompletionEnabled"
| "step w (Fire h contextText now isCancellationRequested) =
     fireTimer w h contextText now isCancellationRequested"
| "step w (BackendDone p response now isCancellationRequested) =
     backendDone w p response now isCancellationRequested"
| "step w ClearCache = w\<lparr>cache := clearCache (cache w)\<rparr>"

definition run :: "Provider \<Rightarrow> event list \<Rightarrow> Provider" where
  "run w evs = foldl step w evs"

text \<open>A request passes the gates of \<^verbatim>\<open>provideInlineCompletionItems\<close> and is scheduled.\<close>

definition isScheduled :: "Provider \<Rightarrow> event \<Rightarrow> bool" where
  "isScheduled w ev =
     (case ev of
        Provide languageId position lineText isEnabled autoCompletionEnabled \<Rightarrow>
          isEnabled \<and> autoCompletionEnabled \<and> \<not> isGenerating w \<and>
          shouldProvideCompletion lineText (snd position) languageId = Inr True
      | _ \<Rightarrow> False)"

text \<open>The promises whose \<^verbatim>\<open>resolve\<close> something still refers to, and the settled ones.\<close>

definition promisesOf :: "Provider \<Rightarrow> nat list" where
  "promisesOf w =
     map (\<lambda>t. promise (snd t)) (timers w) @ map (\<lambda>a. promise (fst a)) (awaiting w) @
     map fst (settled w)"

text \<open>A request at column \<open>n\<close> of a Python line, with completion enabled.\<close>

definition typing :: "jsstring \<Rightarrow> nat \<Rightarrow> event" where
  "typing lineText n = Provide (js ''python'') (0, n) lineText True True"

text \<open>
  What holds of every state the provider reaches: the promises that a timeout, a suspended
  generation or a settlement refers to are different and were all created; at most one
  timeout is set, and it is the one \<^verbatim>\<open>this.debounceTimer\<close> names; at most one generation
  is suspended at the backend, exactly when the flag is set, and then no timeout is set.
\<close>

definition wellFormed :: "Provider \<Rightarrow> bool" where
  "wellFormed w =
     (distinct (promisesOf w) \<and> list_all (\<lambda>p. p < nextPromise w) (promisesOf w) \<and>
      length (timers w) \<le> 1 \<and> list_all (\<lambda>t. debounceTimer w = Some (fst t)) (timers w) \<and>
      length (awaiting w) \<le> 1 \<and> (isGenerating w \<longleftrightarrow> awaiting w \<noteq> []) \<and>
      (awaiting w \<noteq> [] \<longrightarrow> timers w = []))"

definition unreferenced :: "nat \<Rightarrow> Provider \<Rightarrow> bool" where
  "unreferenced p w = (p \<notin> set (promisesOf w) \<and> p < nextPromise w)"

section \<open>Properties of the cache\<close>

lemma getCachedCompletion_snd:
  "snd (getCachedCompletion now k store) =
     filter (\<lambda>entry. now - timestamp entry < cacheExpiryMs) store"
  by (simp add: getCachedCompletion_def Let_def)

lemma length_setCachedCompletion:
  "length (setCachedCompletion now k c store) \<le> maxCacheSize"
  by (simp add: setCachedCompletion_def Let_def)

lemma length_applyOp:
  "length store \<le> maxCacheSize \<Longrightarrow> length (applyOp store op) \<le> maxCacheSize"
proof (cases op)
  case (Lookup now k)
  assume "length store \<le> maxCacheSize"
  then have "length (filter (\<lambda>entry. now - timestamp entry < cacheExpiryMs) store) \<le> maxCacheSize"
    by (rule order_trans [OF length_filter_le])
  then show ?thesis
    using Lookup by (simp add: getCachedCompletion_snd)
next
  case (Store now k c)
  then show ?thesis by (simp add: length_setCachedCompletion)
next
  case Clear
  then show ?thesis by (simp add: clearCache_def)
qed

lemma length_applyOps:
  "length store \<le> maxCacheSize \<Longrightarrow> length (applyOps store ops) \<le> maxCacheSize"
  unfolding applyOps_def
  by (induction ops arbitrary: store) (simp_all add: length_applyOp)

subsection \<open>Eviction keeps the newest entries\<close>

lemma sorted_take_drop_le:
  assumes "sorted (map f xs)" "r \<in> set (take n xs)" "d \<in> set (drop n xs)"
  shows "f r \<le> f d"
proof -
  have "sorted (map f (take n xs) @ map f (drop n xs))"
    using assms(1) by (simp flip: map_append)
  then show ?thesis
    using assms(2,3) by (auto simp: sorted_append)
qed

lemma newestFirst_mset:
  "mset (take n (newestFirst ys)) + mset (drop n (newestFirst ys)) = mset ys"
proof -
  have "mset (take n (newestFirst ys)) + mset (drop n (newestFirst ys)) = mset (newestFirst ys)"
    by (simp flip: mset_append)
  then show ?thesis by (simp add: newestFirst_def)
qed

lemma newestFirst_le:
  assumes "r \<in> set (take n (newestFirst ys))" "d \<in> set (drop n (newestFirst ys))"
  shows "timestamp d \<le> timestamp r"
proof -
  have "sorted (map (\<lambda>entry. - timestamp entry) (newestFirst ys))"
    by (simp add: newestFirst_def)
  from sorted_take_drop_le [OF this assms] show ?thesis by simp
qed

lemma setCachedCompletion_fresh:
  assumes "k \<notin> key ` set store"
  shows "setCachedCompletion now k c store =
    (if length store < maxCacheSize then store @ [\<lparr>key = k, completion = c, timestamp = now\<rparr>]
     else take maxCacheSize (newestFirst (store @ [\<lparr>key = k, completion = c, timestamp = now\<rparr>])))"
proof -
  have "filter (\<lambda>entry. key entry \<noteq> k) store = store"
    using assms by (auto simp: filter_id_conv)
  then show ?thesis
    by (auto simp: setCachedCompletion_def newestFirst_def Let_def)
qed

lemma retainsNewest_step:
  assumes inv: "retainsNewest made c" and fresh: "key e \<notin> key ` set made"
    and e: "e = \<lparr>key = k, completion = v, timestamp = now\<rparr>"
  shows "retainsNewest (made @ [e]) (setCachedCompletion now k v c)"
proof -
  from inv have sub: "mset c \<subseteq># mset made" and len: "length c = min (length made) maxCacheSize"
    and old: "\<And>d r. d \<in># mset made - mset c \<Longrightarrow> r \<in> set c \<Longrightarrow> timestamp d \<le> timestamp r"
    by (auto simp: retainsNewest_def)
  from sub have "set c \<subseteq> set made" by (metis set_mset_mono set_mset_mset)
  with fresh have notin: "key e \<notin> key ` set c" by blast
  then have k: "k \<notin> key ` set c" by (simp add: e)
  show ?thesis
  proof (cases "length c < maxCacheSize")
    case True
    with len have "length c = length made" by (simp add: min_def split: if_splits)
    then have "size (mset c) = size (mset made)" by simp
    with sub have eq: "mset c = mset made"
      using mset_subset_size subset_mset.less_le by (metis less_irrefl)
    have "setCachedCompletion now k v c = c @ [e]"
      using True by (simp add: setCachedCompletion_fresh [OF k] e)
    moreover have "retainsNewest (made @ [e]) (c @ [e])"
      using True \<open>length c = length made\<close> by (simp add: retainsNewest_def eq)
    ultimately show ?thesis by simp
  next
    case False
    let ?s = "newestFirst (c @ [e])"
    let ?T = "take maxCacheSize ?s" and ?D = "drop maxCacheSize ?s"
    have new: "setCachedCompletion now k v c = ?T"
      using False by (simp add: setCachedCompletion_fresh [OF k] e)
    have split: "mset ?T + mset ?D = mset c + {#e#}"
      using newestFirst_mset [of maxCacheSize "c @ [e]"] by simp
    from False len have lenc: "length c = maxCacheSize" and big: "maxCacheSize \<le> length made"
      by (simp_all add: min_def split: if_splits)
    have "length ?s = Suc maxCacheSize"
      by (simp add: newestFirst_def lenc)
    then have lenT: "length ?T = maxCacheSize" and lenD: "length ?D = 1"
      by simp_all
    obtain R where R: "mset made = mset c + R"
      using sub by (metis subset_mset.add_diff_inverse)
    then have R': "mset made - mset c = R" by simp
    have all: "mset (made @ [e]) = mset ?T + (mset ?D + R)"
      using split R by (simp add: ac_simps)
    then have diff: "mset (made @ [e]) - mset ?T = mset ?D + R" by simp
    have subT: "mset ?T \<subseteq># mset (made @ [e])"
      unfolding all by simp
    have e_notin_c: "e \<notin> set c" using notin by blast
    have e_once: "count (mset ?T + mset ?D) e = 1"
      unfolding split using e_notin_c by (simp add: count_eq_zero_iff)
    have le: "timestamp d \<le> timestamp r" if d: "d \<in># mset ?D + R" and r: "r \<in> set ?T" for d r
    proof (cases "d \<in> set ?D")
      case True
      with r show ?thesis by (rule newestFirst_le)
    next
      case False
      with d have dR: "d \<in># mset made - mset c" by (simp add: R')
      have "set ?T \<subseteq> set ?s" by (rule set_take_subset)
      with r have "r \<in> set c \<or> r = e" by (auto simp: newestFirst_def)
      then show ?thesis
      proof
        assume "r \<in> set c" with dR show ?thesis by (rule old)
      next
        assume re: "r = e"
        from lenD obtain x where x: "x \<in> set ?D" by (cases ?D) auto
        from r re have "e \<in># mset ?T" by simp
        then have "0 < count (mset ?T) e" by (simp only: count_greater_zero_iff)
        moreover have "count (mset ?T) e + count (mset ?D) e = 1"
          using e_once by (simp only: count_union)
        ultimately have "count (mset ?D) e = 0" by linarith
        then have "e \<notin> set ?D" by (rule iffD1 [OF count_mset_0_iff])
        with x have "x \<noteq> e" by blast
        moreover have "set ?D \<subseteq> set ?s" by (rule set_drop_subset)
        ultimately have "x \<in> set c" using x by (auto simp: newestFirst_def)
        with dR have "timestamp d \<le> timestamp x" by (rule old)
        also from r x have "timestamp x \<le> timestamp r" by (rule newestFirst_le)
        finally show ?thesis .
      qed
    qed
    have "retainsNewest (made @ [e]) ?T"
      unfolding retainsNewest_def diff
      using subT lenT big le by (auto simp: min_def)
    with new show ?thesis by simp
  qed
qed

lemma inserts_snoc: "inserts (ins @ [i]) = insertOne (inserts ins) i"
  by (simp add: inserts_def)

lemma retainsNewest_inserts:
  "distinct (map (\<lambda>i. fst (snd i)) ins) \<Longrightarrow> retainsNewest (map entryOf ins) (inserts ins)"
proof (induction ins rule: rev_induct)
  case Nil
  show ?case by (simp add: inserts_def retainsNewest_def)
next
  case (snoc i ins)
  obtain now k v where i: "i = (now, k, v)" by (cases i) auto
  from snoc.prems have d: "distinct (map (\<lambda>i. fst (snd i)) ins)" and f: "k \<notin> (\<lambda>i. fst (snd i)) ` set ins"
    by (simp_all add: i)
  have keys: "key (entryOf j) = fst (snd j)" for j
    by (cases j) (simp add: entryOf_def)
  have "key (entryOf i) \<notin> key ` set (map entryOf ins)"
    using f by (force simp: keys i image_iff)
  moreover have ei: "entryOf i = \<lparr>key = k, completion = v, timestamp = now\<rparr>"
    by (simp add: i entryOf_def)
  ultimately have "retainsNewest (map entryOf ins @ [entryOf i]) (setCachedCompletion now k v (inserts ins))"
    using snoc.IH [OF d] by (intro retainsNewest_step)
  then show ?case by (simp add: inserts_snoc insertOne_def i)
qed

lemma sameKey_step:
  "key e = k \<Longrightarrow> setCachedCompletion now k c [e] = [\<lparr>key = k, completion = c, timestamp = now\<rparr>]"
  by (simp add: setCachedCompletion_def maxCacheSize_def)

lemma sameKeyInserts_Suc:
  "sameKeyInserts (Suc n) = sameKeyInserts n @ [(int n, js ''k'', js ''x'')]"
  by (simp add: sameKeyInserts_def)

lemma inserts_sameKey:
  "inserts (sameKeyInserts (Suc n)) = [\<lparr>key = js ''k'', completion = js ''x'', timestamp = int n\<rparr>]"
proof (induction n)
  case 0
  show ?case
    by (simp add: sameKeyInserts_def inserts_def insertOne_def setCachedCompletion_def maxCacheSize_def)
next
  case (Suc n)
  have "inserts (sameKeyInserts (Suc (Suc n))) =
      setCachedCompletion (int (Suc n)) (js ''k'') (js ''x'') (inserts (sameKeyInserts (Suc n)))"
    by (simp only: sameKeyInserts_Suc [of "Suc n"] inserts_snoc insertOne_def prod.case)
  also have "\<dots> = [\<lparr>key = js ''k'', completion = js ''x'', timestamp = int (Suc n)\<rparr>]"
    unfolding Suc.IH by (rule sameKey_step) simp
  finally show ?case .
qed

text \<open>
  C2, as stated, fails: fifty-one inserts of one key exceed \<open>maxCacheSize\<close> and leave a
  single entry, since an insert first removes the entry with its key.
\<close>

theorem overflow_keeps_maxSize_counterexample:
  "maxCacheSize < length (sameKeyInserts 51) \<and>
   inserts (sameKeyInserts 51) = [\<lparr>key = js ''k'', completion = js ''x'', timestamp = 50\<rparr>] \<and>
   length (inserts (sameKeyInserts 51)) \<noteq> maxCacheSize"
proof -
  have "inserts (sameKeyInserts (Suc 50)) = [\<lparr>key = js ''k'', completion = js ''x'', timestamp = int 50\<rparr>]"
    by (rule inserts_sameKey)
  then have "inserts (sameKeyInserts 51) = [\<lparr>key = js ''k'', completion = js ''x'', timestamp = 50\<rparr>]"
    by simp
  then show ?thesis
    by (simp add: sameKeyInserts_def maxCacheSize_def)
qed

lemma distinct_distinctInserts: "distinct (map (\<lambda>i. fst (snd i)) (distinctInserts n))"
proof -
  have "map (\<lambda>i. fst (snd i)) (distinctInserts n) = map (\<lambda>i. replicate i (0x61::jschar)) [0..<n]"
    by (simp add: distinctInserts_def comp_def)
  moreover have "inj_on (\<lambda>i. replicate i (0x61::jschar)) (set [0..<n])"
    by (rule inj_onI) (metis length_replicate)
  ultimately show ?thesis by (simp add: distinct_map)
qed

text \<open>
  C2, amended: from the empty store every run of lookups, inserts and clears leaves at most
  \<open>maxCacheSize\<close> entries; and after more than \<open>maxCacheSize\<close> inserts with pairwise
  different keys the store holds exactly \<open>maxCacheSize\<close> of the inserted entries, none of
  them older than an entry that was dropped.
\<close>

theorem store_bounded_and_newest_retained:
  "length (applyOps [] ops) \<le> maxCacheSize \<and>
   (distinct (map (\<lambda>i. fst (snd i)) ins) \<and> maxCacheSize < length ins \<longrightarrow>
      length (inserts ins) = maxCacheSize \<and>
      mset (inserts ins) \<subseteq># mset (map entryOf ins) \<and>
      (\<forall>d \<in># mset (map entryOf ins) - mset (inserts ins). \<forall>r \<in> set (inserts ins).
         timestamp d \<le> timestamp r))"
proof (intro conjI impI)
  show "length (applyOps [] ops) \<le> maxCacheSize"
    by (rule length_applyOps) simp
next
  assume h: "distinct (map (\<lambda>i. fst (snd i)) ins) \<and> maxCacheSize < length ins"
  then have inv: "retainsNewest (map entryOf ins) (inserts ins)"
    by (simp add: retainsNewest_inserts)
  from inv h show "length (inserts ins) = maxCacheSize"
    by (simp add: retainsNewest_def)
  from inv show "mset (inserts ins) \<subseteq># mset (map entryOf ins)"
    by (simp add: retainsNewest_def)
  from inv show "\<forall>d \<in># mset (map entryOf ins) - mset (inserts ins). \<forall>r \<in> set (inserts ins).
         timestamp d \<le> timestamp r"
    by (simp add: retainsNewest_def)
qed

theorem store_bounded_and_newest_retained_witness:
  "distinct (map (\<lambda>i. fst (snd i)) (distinctInserts 51)) \<and>
   maxCacheSize < length (distinctInserts 51) \<and>
   length (applyOps [] [Store 1 (js ''a'') (js ''x''), Lookup 2 (js ''a''), Clear]) \<le> maxCacheSize \<and>
   length (inserts (distinctInserts 51)) = maxCacheSize \<and>
   mset (inserts (distinctInserts 51)) \<subseteq># mset (map entryOf (distinctInserts 51))"
proof -
  have d: "distinct (map (\<lambda>i. fst (snd i)) (distinctInserts 51))"
    by (rule distinct_distinctInserts)
  have l: "maxCacheSize < length (distinctInserts 51)"
    by (simp add: distinctInserts_def maxCacheSize_def)
  from store_bounded_and_newest_retained
    [of "[Store 1 (js ''a'') (js ''x''), Lookup 2 (js ''a''), Clear]" "distinctInserts 51"] d l
  show ?thesis by blast
qed

subsection \<open>Expiry\<close>

lemma find_Some_set: "find P xs = Some x \<Longrightarrow> x \<in> set xs \<and> P x"
  by (induction xs) (auto split: if_splits)












text \<open>
  C10: whatever key is asked for, the store after a lookup holds exactly the entries of the
  store before it whose age is below \<open>cacheExpiryMs\<close>: each of them as often as before,
  unchanged and in the same order, and no entry of age \<open>cacheExpiryMs\<close> or more.
\<close>

theorem lookup_purges_exactly_expired:
  "(\<forall>e. e \<in> set (snd (getCachedCompletion now k store)) \<longleftrightarrow>
        (e \<in> set store \<and> now - timestamp e < cacheExpiryMs)) \<and>
   mset (snd (getCachedCompletion now k store)) =
     filter_mset (\<lambda>entry. now - timestamp entry < cacheExpiryMs) (mset store) \<and>
   subseq (snd (getCachedCompletion now k store)) store"
  by (simp add: getCachedCompletion_snd)

section \<open>Properties of the filter and the sanitizer\<close>

text \<open>The definitions that evaluate a concrete input.\<close>

lemmas string_eval =
  js_def newline_def fence_def trim_def isWhiteSpace_def isWordChar_def startsWith_def
  startsWithIgnoreCase_def asciiLower_def

lemmas sanitizer_eval =
  cleanCompletion_def stripFenceOpener_def stripFenceCloser_def isExplanatoryLine_def
  matchesDiscourse_def matchesCommented_def discourseMarkers_def commentMarkers_def
  commentedMarkers_def Let_def

lemmas filter_eval =
  shouldProvideCompletion_def isInComment_def commentPatterns_def objectPrototypeKeys_def
  charAt_def truthy_def testWord_def Let_def

lemmas coordinator_eval =
  run_def provideInlineCompletionItems_def fireTimer_def backendDone_def generateCompletions_def
  startGeneration_def resumeGeneration_def settle_def clearTimeout_def itemAt_def
  initialProvider_def getCachedCompletion_def setCachedCompletion_def maxCacheSize_def
  cacheExpiryMs_def clearCache_def Let_def

subsection \<open>The eligibility filter\<close>

text \<open>
  For every other language identifier the filter accepts exactly when the trimmed prefix
  has three characters or more, does not start with a comment opener of the language, and
  the cursor does not stand between two word characters.
\<close>

lemma shouldProvideCompletion_iff:
  assumes "languageId \<notin> set objectPrototypeKeys"
  shows "shouldProvideCompletion lineText character languageId =
     Inr (3 \<le> length (trim (take character lineText)) \<and>
          \<not> list_ex (startsWith (trim (take character lineText))) (commentOpeners languageId) \<and>
          \<not> (0 < character \<and> character < length lineText \<and>
             isWordChar (lineText ! (character - 1)) \<and> isWordChar (lineText ! character)))"
proof -
  have c: "isInComment (take character lineText) languageId =
      Inr (list_ex (startsWith (trim (take character lineText))) (commentOpeners languageId))"
    using assms by (simp add: isInComment_def commentOpeners_def split: option.split)
  show ?thesis
    unfolding shouldProvideCompletion_def Let_def c
    by (auto simp: charAt_def truthy_def testWord_def trim_def split: bool.split)
qed


subsection \<open>Fences\<close>

lemma newline_not_word: "\<not> isWordChar newline"
  by (simp add: isWordChar_def newline_def)

lemma length_fence: "length fence = 3"
  by (simp add: fence_def)

lemma startsWith_fence: "startsWith s fence = (take 3 s = fence)"
  by (simp add: startsWith_def length_fence)

lemma stripFenceOpener_opener:
  assumes "isFenceOpener a"
  shows "stripFenceOpener (a @ r) = r"
proof -
  from assms have sw: "take 3 a = fence" and len: "4 \<le> length a" and l: "last a = newline"
    and w: "list_all isWordChar (butlast (drop 3 a))"
    by (simp_all add: isFenceOpener_def startsWith_fence)
  from len have ne: "drop 3 a \<noteq> []" by simp
  have a: "a = fence @ butlast (drop 3 a) @ [newline]"
  proof -
    have "drop 3 a = butlast (drop 3 a) @ [last (drop 3 a)]"
      by (rule append_butlast_last_id [OF ne, symmetric])
    moreover have "last (drop 3 a) = newline" using ne l by simp
    moreover have "a = take 3 a @ drop 3 a" by simp
    ultimately show ?thesis using sw by metis
  qed
  let ?w = "butlast (drop 3 a)"
  have "drop 3 (a @ r) = ?w @ newline # r"
    by (subst a) (simp add: length_fence)
  moreover have "dropWhile isWordChar (?w @ newline # r) = newline # r"
    using w newline_not_word by (simp add: dropWhile_append3 list_all_iff)
  moreover have "startsWith (a @ r) fence"
    using sw len by (simp add: startsWith_fence)
  ultimately show ?thesis
    by (simp add: stripFenceOpener_def)
qed

lemma stripFenceCloser_closer: "stripFenceCloser (r @ newline # fence) = r"
  by (simp add: stripFenceCloser_def length_fence)

lemma stripFenceOpener_cases:
  "stripFenceOpener s = s \<or> (\<exists>a. isFenceOpener a \<and> s = a @ stripFenceOpener s)"
proof (cases "startsWith s fence")
  case False
  then show ?thesis by (simp add: stripFenceOpener_def)
next
  case True
  show ?thesis
  proof (cases "dropWhile isWordChar (drop 3 s)")
    case Nil
    have "stripFenceOpener s = s"
      by (simp only: stripFenceOpener_def True Nil if_True list.case)
    then show ?thesis by simp
  next
    case (Cons c rest)
    show ?thesis
    proof (cases "c = newline")
      case False
      with True Cons show ?thesis by (simp add: stripFenceOpener_def)
    next
      case nl: True
      let ?w = "takeWhile isWordChar (drop 3 s)"
      let ?a = "fence @ ?w @ [newline]"
      have r: "stripFenceOpener s = rest"
        using True Cons nl by (simp add: stripFenceOpener_def)
      have "drop 3 s = ?w @ dropWhile isWordChar (drop 3 s)" by simp
      then have d: "drop 3 s = ?w @ newline # rest" using Cons nl by simp
      from True have "take 3 s = fence" by (simp add: startsWith_fence)
      then have "s = fence @ drop 3 s" by (metis append_take_drop_id)
      with d have s: "s = ?a @ rest" by simp
      have "list_all isWordChar ?w"
        by (simp add: list_all_iff) (meson set_takeWhileD)
      then have "isFenceOpener ?a"
        by (simp add: isFenceOpener_def startsWith_fence length_fence)
      with s r show ?thesis by metis
    qed
  qed
qed

lemma stripFenceCloser_cases:
  "stripFenceCloser s = s \<or> s = stripFenceCloser s @ newline # fence"
proof (cases "4 \<le> length s \<and> drop (length s - 4) s = newline # fence")
  case False
  then show ?thesis by (auto simp: stripFenceCloser_def)
next
  case True
  then have "stripFenceCloser s = take (length s - 4) s" by (simp add: stripFenceCloser_def)
  moreover have "s = take (length s - 4) s @ drop (length s - 4) s" by simp
  ultimately show ?thesis using True by metis
qed

text \<open>
  C4, amended: a fence opener at the start (the fence, an optional language tag, a newline)
  is stripped whatever follows it, a fence closer at the end (a newline, the fence) is
  stripped whatever precedes it, and nothing else is removed: what the two replacements
  leave is the input without at most one opener in front and at most one closer behind,
  so a fence inside the text stays.
\<close>

theorem fences_stripped_independently:
  "(isFenceOpener a \<longrightarrow> stripFenceOpener (a @ r) = r) \<and>
   stripFenceCloser (r @ newline # fence) = r \<and>
   (\<exists>a b. s = a @ stripFenceCloser (stripFenceOpener s) @ b \<and>
          (a = [] \<or> isFenceOpener a) \<and> (b = [] \<or> b = newline # fence))"
proof (intro conjI impI)
  assume "isFenceOpener a" then show "stripFenceOpener (a @ r) = r"
    by (rule stripFenceOpener_opener)
next
  show "stripFenceCloser (r @ newline # fence) = r" by (rule stripFenceCloser_closer)
next
  let ?o = "stripFenceOpener s"
  from stripFenceOpener_cases [of s] obtain a where a: "s = a @ ?o" "a = [] \<or> isFenceOpener a"
    by (metis append_Nil)
  from stripFenceCloser_cases [of ?o] obtain b
    where b: "?o = stripFenceCloser ?o @ b" "b = [] \<or> b = newline # fence"
    by (metis append_Nil2)
  from a b show "\<exists>a b. s = a @ stripFenceCloser (stripFenceOpener s) @ b \<and>
          (a = [] \<or> isFenceOpener a) \<and> (b = [] \<or> b = newline # fence)"
    by metis
qed

theorem fences_stripped_independently_witness:
  "isFenceOpener (fence @ js ''python'' @ [newline]) \<and>
   stripFenceOpener ((fence @ js ''python'' @ [newline]) @ js ''foo'') = js ''foo'' \<and>
   stripFenceCloser (js ''foo'' @ newline # fence) = js ''foo''"
proof -
  have o: "isFenceOpener (fence @ js ''python'' @ [newline])"
    by (simp add: isFenceOpener_def string_eval)
  from fences_stripped_independently [of "fence @ js ''python'' @ [newline]" "js ''foo''"] o
  show ?thesis by simp
qed

text \<open>
  C4, as stated, fails: with an opener and no closer the opener is stripped, and with a
  closer and no opener the closer is stripped.
\<close>

theorem one_sided_fence_counterexample:
  "cleanCompletion (fence @ js ''python'' @ newline # js ''foo'') (js ''python'') = js ''foo'' \<and>
   cleanCompletion (js ''foo'' @ newline # fence) (js ''python'') = js ''foo''"
  by (simp add: sanitizer_eval string_eval)

text \<open>The example of the specification: the fences and the prose go, the indentation stays.\<close>

lemma spec_example_cleaned:
  "cleanCompletion (fence @ js ''python'' @ newline # js ''    return a + b'' @ newline #
       js ''This function adds two numbers.'' @ newline # fence) (js ''python'') =
   js ''    return a + b''"
  by (simp add: sanitizer_eval string_eval)

subsection \<open>Cleaning twice\<close>

lemma splitLines_not_Nil: "splitLines s \<noteq> []"
  by (induction s) (auto split: list.split)

lemma joinLines_Cons: "ls \<noteq> [] \<Longrightarrow> joinLines (l # ls) = l @ newline # joinLines ls"
  by (cases ls) simp_all

lemma joinLines_splitLines: "joinLines (splitLines s) = s"
proof (induction s)
  case Nil
  show ?case by simp
next
  case (Cons c cs)
  obtain l ls where sp: "splitLines cs = l # ls"
    using splitLines_not_Nil [of cs] by (cases "splitLines cs") auto
  show ?case
  proof (cases "c = newline")
    case True
    then show ?thesis using Cons splitLines_not_Nil [of cs] by (simp add: joinLines_Cons)
  next
    case False
    have "joinLines ((c # l) # ls) = c # joinLines (l # ls)"
      by (cases ls) simp_all
    with False sp Cons show ?thesis by simp
  qed
qed

text \<open>Cutting a text cuts its first line, and every later line is cut or kept.\<close>

lemma splitLines_take:
  "prefix (hd (splitLines (take n s))) (hd (splitLines s)) \<and>
   (\<forall>l' \<in> set (tl (splitLines (take n s))). \<exists>l \<in> set (tl (splitLines s)). prefix l' l)"
proof (induction s arbitrary: n)
  case Nil
  show ?case by simp
next
  case (Cons c cs)
  show ?case
  proof (cases n)
    case 0
    then show ?thesis by simp
  next
    case (Suc m)
    obtain x xs where x: "splitLines (take m cs) = x # xs"
      using splitLines_not_Nil [of "take m cs"] by (cases "splitLines (take m cs)") auto
    obtain y ys where y: "splitLines cs = y # ys"
      using splitLines_not_Nil [of cs] by (cases "splitLines cs") auto
    from Cons [of m] x y have h: "prefix x y" and t: "\<forall>l' \<in> set xs. \<exists>l \<in> set ys. prefix l' l"
      by simp_all
    show ?thesis
    proof (cases "c = newline")
      case True
      with h t show ?thesis by (auto simp: Suc x y)
    next
      case False
      with h t show ?thesis by (simp add: Suc x y)
    qed
  qed
qed

lemma splitLines_take_prefix:
  assumes "l' \<in> set (splitLines (take n s))"
  shows "\<exists>l \<in> set (splitLines s). prefix l' l"
proof -
  obtain x xs where x: "splitLines (take n s) = x # xs"
    using splitLines_not_Nil [of "take n s"] by (cases "splitLines (take n s)") auto
  obtain y ys where y: "splitLines s = y # ys"
    using splitLines_not_Nil [of s] by (cases "splitLines s") auto
  from splitLines_take [of n s] x y have "prefix x y" "\<forall>l' \<in> set xs. \<exists>l \<in> set ys. prefix l' l"
    by simp_all
  with assms x y show ?thesis by auto
qed

lemma splitLines_no_newline: "l \<in> set (splitLines s) \<Longrightarrow> newline \<notin> set l"
proof (induction s arbitrary: l)
  case Nil
  then show ?case by simp
next
  case (Cons c cs)
  obtain y ys where y: "splitLines cs = y # ys"
    using splitLines_not_Nil [of cs] by (cases "splitLines cs") auto
  from Cons.IH have "newline \<notin> set y" "\<forall>l \<in> set ys. newline \<notin> set l"
    by (simp_all add: y)
  with Cons.prems show ?case
    by (auto simp: y split: if_splits)
qed

lemma splitLines_joinLines:
  assumes "ls \<noteq> []" "\<forall>l \<in> set ls. newline \<notin> set l"
  shows "splitLines (joinLines ls) = ls"
  using assms
proof (induction ls rule: joinLines.induct)
  case 1
  then show ?case by simp
next
  case (2 l)
  then have "newline \<notin> set l" by simp
  then have "splitLines l = [l]"
    by (induction l) auto
  then show ?case by simp
next
  case (3 l v va)
  then have nl: "newline \<notin> set l" and ih: "splitLines (joinLines (v # va)) = v # va"
    by simp_all
  have "splitLines (l @ newline # r) = l # splitLines r" for r
    using nl by (induction l) auto
  with ih show ?case by simp
qed


lemma trim_trimEnd: "trim s = trimEnd (dropWhile isWhiteSpace s)"
  by (simp add: trim_def trimEnd_def)

lemma trimEnd_prefix: "prefix (trimEnd u) u"
proof -
  have "suffix (dropWhile isWhiteSpace (rev u)) (rev u)"
    by (rule suffix_dropWhile)
  then have "prefix (rev (dropWhile isWhiteSpace (rev u))) (rev (rev u))"
    by (simp only: suffix_to_prefix rev_rev_ident)
  then show ?thesis by (simp add: trimEnd_def)
qed

lemma trimEnd_append: "prefix (trimEnd u) (trimEnd (u @ r))"
proof (cases "\<forall>c \<in> set r. isWhiteSpace c")
  case True
  then have "dropWhile isWhiteSpace (rev r @ rev u) = dropWhile isWhiteSpace (rev u)"
    by (intro dropWhile_append2) simp
  then show ?thesis by (simp add: trimEnd_def)
next
  case False
  then have "dropWhile isWhiteSpace (rev r @ rev u) = dropWhile isWhiteSpace (rev r) @ rev u"
    by (auto simp: dropWhile_append1)
  then have "trimEnd (u @ r) = u @ trimEnd r"
    by (simp add: trimEnd_def)
  with trimEnd_prefix [of u] show ?thesis
    by (metis prefix_order.trans prefixI)
qed

lemma trim_prefix:
  assumes "prefix l' l"
  shows "prefix (trim l') (trim l)"
proof (cases "\<forall>c \<in> set l'. isWhiteSpace c")
  case True
  then have e: "dropWhile isWhiteSpace l' = []" by simp
  have "trim l' = []" unfolding trim_def e by simp
  then show ?thesis by simp
next
  case False
  from assms obtain r where l: "l = l' @ r" by (auto simp: prefix_def)
  from False have "dropWhile isWhiteSpace (l' @ r) = dropWhile isWhiteSpace l' @ r"
    by (auto simp: dropWhile_append1)
  then show ?thesis
    unfolding trim_trimEnd l by (simp add: trimEnd_append)
qed

lemma startsWith_append: "startsWith t m \<Longrightarrow> startsWith (t @ q) m"
  by (auto simp: startsWith_def) (metis nat_le_linear take_all)

lemma startsWithIgnoreCase_length: "startsWithIgnoreCase t m \<Longrightarrow> length m \<le> length t"
  by (auto simp: startsWithIgnoreCase_def) (metis length_map length_take min.cobounded1)

lemma startsWithIgnoreCase_append:
  "startsWithIgnoreCase t m \<Longrightarrow> startsWithIgnoreCase (t @ q) m"
  using startsWithIgnoreCase_length [of t m] by (simp add: startsWithIgnoreCase_def)

lemma matchesDiscourse_append: "matchesDiscourse t \<Longrightarrow> matchesDiscourse (t @ q)"
  by (auto simp: matchesDiscourse_def list_ex_iff intro: startsWithIgnoreCase_append)

lemma commentedMarkers_nonempty: "kw \<in> set commentedMarkers \<Longrightarrow> kw \<noteq> []"
  by (auto simp: commentedMarkers_def js_def)

lemma matchesCommented_append:
  assumes "matchesCommented t"
  shows "matchesCommented (t @ q)"
proof -
  from assms obtain m kw where m: "m \<in> set commentMarkers" "startsWith t m"
    and kw: "kw \<in> set commentedMarkers"
      "startsWithIgnoreCase (dropWhile isWhiteSpace (drop (length m) t)) kw"
    by (auto simp: matchesCommented_def list_ex_iff)
  let ?d = "drop (length m) t"
  from m(2) have "length m \<le> length t"
    by (auto simp: startsWith_def) (metis length_take min.cobounded1)
  then have d: "drop (length m) (t @ q) = ?d @ q" by simp
  have "\<exists>c \<in> set ?d. \<not> isWhiteSpace c"
  proof (rule ccontr)
    assume "\<not> (\<exists>c \<in> set ?d. \<not> isWhiteSpace c)"
    then have "dropWhile isWhiteSpace ?d = []" by simp
    with startsWithIgnoreCase_length [OF kw(2)] have "kw = []" by simp
    with commentedMarkers_nonempty [OF kw(1)] show False by simp
  qed
  then have "dropWhile isWhiteSpace (?d @ q) = dropWhile isWhiteSpace ?d @ q"
    by (auto simp: dropWhile_append1)
  with kw(2) have "startsWithIgnoreCase (dropWhile isWhiteSpace (?d @ q)) kw"
    by (simp add: startsWithIgnoreCase_append)
  then have "startsWithIgnoreCase (dropWhile isWhiteSpace (drop (length m) (t @ q))) kw"
    by (simp only: d)
  with m kw(1) startsWith_append [OF m(2), of q] show ?thesis
    by (auto simp: matchesCommented_def list_ex_iff)
qed

lemma isExplanatoryLine_prefix:
  assumes "prefix l' l" "isExplanatoryLine l'"
  shows "isExplanatoryLine l"
proof -
  from trim_prefix [OF assms(1)] obtain q where "trim l = trim l' @ q"
    by (auto simp: prefix_def)
  with assms(2) show ?thesis
    by (auto simp: isExplanatoryLine_def matchesDiscourse_append matchesCommented_append)
qed

lemma not_explanatory_Nil: "\<not> isExplanatoryLine []"
  by (simp add: sanitizer_eval string_eval)


lemma cleanCompletion_take:
  "cleanCompletion x l =
     take 500 (joinLines (takeWhile (\<lambda>line. \<not> isExplanatoryLine line)
       (splitLines (stripFenceCloser (stripFenceOpener (trim x))))))"
  by (simp add: cleanCompletion_def Let_def)

lemma cleanCompletion_lines:
  assumes "line \<in> set (splitLines (cleanCompletion x l))"
  shows "\<not> isExplanatoryLine line"
proof -
  let ?ls = "takeWhile (\<lambda>line. \<not> isExplanatoryLine line)
       (splitLines (stripFenceCloser (stripFenceOpener (trim x))))"
  have ok: "\<forall>k \<in> set ?ls. \<not> isExplanatoryLine k"
    by (auto dest: set_takeWhileD)
  show ?thesis
  proof (cases "?ls = []")
    case True
    then have "cleanCompletion x l = []" by (simp add: cleanCompletion_take)
    with assms show ?thesis by (simp add: not_explanatory_Nil)
  next
    case False
    have "\<forall>k \<in> set ?ls. newline \<notin> set k"
      by (auto dest!: set_takeWhileD splitLines_no_newline)
    with False have sj: "splitLines (joinLines ?ls) = ?ls"
      by (rule splitLines_joinLines)
    from assms obtain k where "k \<in> set (splitLines (joinLines ?ls))" "prefix line k"
      unfolding cleanCompletion_take by (blast dest: splitLines_take_prefix)
    with sj ok show ?thesis
      by (auto dest: isExplanatoryLine_prefix)
  qed
qed

lemma cleanCompletion_fixed:
  assumes "isTrimmed y" "hasNoOuterFence y" "length y \<le> 500"
    and "\<forall>line \<in> set (splitLines y). \<not> isExplanatoryLine line"
  shows "cleanCompletion y l = y"
proof -
  from assms(1,2) have 1: "stripFenceCloser (stripFenceOpener (trim y)) = y"
    by (simp add: isTrimmed_def hasNoOuterFence_def)
  from assms(4)
  have 2: "takeWhile (\<lambda>line. \<not> isExplanatoryLine line) (splitLines y) = splitLines y"
    by (simp add: takeWhile_eq_all_conv)
  show ?thesis
    unfolding cleanCompletion_take 1 2 joinLines_splitLines using assms(3) by simp
qed

text \<open>
  C5, amended: whenever the cleaned completion has no white space at either end and
  neither a fence opener at its start nor a fence closer at its end, cleaning it again
  (for any language) gives it back.
\<close>

theorem sanitizer_idempotent_on_clean_output:
  "isTrimmed (cleanCompletion x l) \<Longrightarrow> hasNoOuterFence (cleanCompletion x l) \<Longrightarrow>
   cleanCompletion (cleanCompletion x l) l' = cleanCompletion x l"
proof (rule cleanCompletion_fixed)
  show "length (cleanCompletion x l) \<le> 500"
    by (simp add: cleanCompletion_take)
  show "\<forall>line \<in> set (splitLines (cleanCompletion x l)). \<not> isExplanatoryLine line"
    by (blast dest: cleanCompletion_lines)
qed

text \<open>
  C5, as stated, fails: behind a stripped opener the indentation of the code stays, and
  the second pass trims it.
\<close>

theorem sanitizer_idempotent_counterexample:
  "cleanCompletion (fence @ newline # js '' x'') (js ''python'') = js '' x'' \<and>
   cleanCompletion (cleanCompletion (fence @ newline # js '' x'') (js ''python'')) (js ''python'') = js ''x'' \<and>
   js ''x'' \<noteq> js '' x''"
proof -
  have a: "cleanCompletion (fence @ newline # js '' x'') (js ''python'') = js '' x''"
    by (simp add: sanitizer_eval string_eval)
  have b: "cleanCompletion (js '' x'') (js ''python'') = js ''x''"
    by (simp add: sanitizer_eval string_eval)
  show ?thesis unfolding a b by (simp add: js_def)
qed

theorem sanitizer_idempotent_on_clean_output_witness:
  "isTrimmed (cleanCompletion (fence @ js ''python'' @ newline # js ''return a + b'' @ newline #
       js ''This function adds two numbers.'' @ newline # fence) (js ''python'')) \<and>
   hasNoOuterFence (cleanCompletion (fence @ js ''python'' @ newline # js ''return a + b'' @ newline #
       js ''This function adds two numbers.'' @ newline # fence) (js ''python'')) \<and>
   cleanCompletion (fence @ js ''python'' @ newline # js ''return a + b'' @ newline #
       js ''This function adds two numbers.'' @ newline # fence) (js ''python'') = js ''return a + b'' \<and>
   cleanCompletion (js ''return a + b'') (js ''python'') = js ''return a + b''"
proof -
  let ?x = "fence @ js ''python'' @ newline # js ''return a + b'' @ newline #
       js ''This function adds two numbers.'' @ newline # fence"
  have a: "cleanCompletion ?x (js ''python'') = js ''return a + b''"
    by (simp add: sanitizer_eval string_eval)
  have t: "isTrimmed (js ''return a + b'')"
    by (simp add: isTrimmed_def string_eval)
  have f: "hasNoOuterFence (js ''return a + b'')"
    by (simp add: hasNoOuterFence_def stripFenceOpener_def stripFenceCloser_def string_eval)
  from sanitizer_idempotent_on_clean_output [of ?x "js ''python''" "js ''python''"] a t f
  show ?thesis by simp
qed

section \<open>Properties of the coordinator\<close>

subsection \<open>Requests during a generation, cancellation, empty completions\<close>

text \<open>
  C6: while \<open>isGenerating\<close> is set, \<open>provideInlineCompletionItems\<close> resolves the promise
  it returns with the empty list at once and changes nothing else: no timeout is set, no
  backend call is started, nothing is queued, the store and the flag stay as they are.
\<close>

theorem request_during_generation_refused:
  "isGenerating w \<Longrightarrow>
   provideInlineCompletionItems w languageId position lineText isEnabled autoCompletionEnabled =
     w\<lparr>nextPromise := Suc (nextPromise w), settled := settled w @ [(nextPromise w, Resolved [])]\<rparr>"
  by (simp add: provideInlineCompletionItems_def settle_def Let_def)

theorem request_during_generation_refused_witness:
  "isGenerating (run initialProvider [typing (js ''x = '') 4, Fire 0 (js ''x = '') 1000 False]) \<and>
   backendCalls (step (run initialProvider [typing (js ''x = '') 4, Fire 0 (js ''x = '') 1000 False])
      (typing (js ''x = 1'') 5)) =
   backendCalls (run initialProvider [typing (js ''x = '') 4, Fire 0 (js ''x = '') 1000 False]) \<and>
   timers (step (run initialProvider [typing (js ''x = '') 4, Fire 0 (js ''x = '') 1000 False])
      (typing (js ''x = 1'') 5)) = [] \<and>
   settled (step (run initialProvider [typing (js ''x = '') 4, Fire 0 (js ''x = '') 1000 False])
      (typing (js ''x = 1'') 5)) = [(1, Resolved [])]"
proof -
  let ?w = "run initialProvider [typing (js ''x = '') 4, Fire 0 (js ''x = '') 1000 False]"
  have g: "isGenerating ?w"
    by (simp add: coordinator_eval typing_def filter_eval string_eval)
  have t: "timers ?w = []" and s: "settled ?w = []" and n: "nextPromise ?w = 1"
    by (simp_all add: coordinator_eval typing_def filter_eval string_eval)
  from request_during_generation_refused [OF g, of "js ''python''" "(0, 5)" "js ''x = 1''" True True]
  show ?thesis using g t s n by (simp add: typing_def)
qed

text \<open>
  C7: when the token is cancelled at the first checkpoint (\<open>startGeneration\<close>, the code from
  the \<^verbatim>\<open>try\<close> on) or at the second (\<open>resumeGeneration\<close> with a response), the promise
  is resolved with the empty list and only the flag is cleared: the store is the one the
  checkpoint found, and at the first checkpoint no backend call is made. Over the whole of
  \<open>generateCompletions\<close> with a cancelled token the store is changed by the purge of the
  lookup alone.
\<close>

theorem cancellation_leaves_store:
  "startGeneration w req cacheKey contextText True =
     w\<lparr>isGenerating := False, settled := settled w @ [(promise req, Resolved [])]\<rparr> \<and>
   resumeGeneration w req cacheKey (Some rawCompletion) now True =
     w\<lparr>isGenerating := False, settled := settled w @ [(promise req, Resolved [])]\<rparr> \<and>
   cache (generateCompletions w req contextText now True) =
     snd (getCachedCompletion now (createCacheKey contextText (docLanguage req)) (cache w)) \<and>
   backendCalls (generateCompletions w req contextText now True) = backendCalls w"
  by (simp add: startGeneration_def resumeGeneration_def generateCompletions_def settle_def
      Let_def split: option.split)

text \<open>
  C8: when the backend has answered and the cleaned completion is empty, the promise is
  resolved with the empty list and the store is left as it was; only the flag is cleared.
\<close>

theorem empty_completion_not_cached:
  "cleanCompletion rawCompletion (docLanguage req) = [] \<Longrightarrow>
   resumeGeneration w req cacheKey (Some rawCompletion) now isCancellationRequested =
     w\<lparr>isGenerating := False, settled := settled w @ [(promise req, Resolved [])]\<rparr>"
  by (simp add: resumeGeneration_def settle_def Let_def)

theorem empty_completion_not_cached_witness:
  "cleanCompletion (js ''The sum of a and b'')
     (docLanguage \<lparr>promise = 0, docLanguage = js ''python'', cursor = (0, 4)\<rparr>) = [] \<and>
   resumeGeneration (initialProvider\<lparr>isGenerating := True\<rparr>)
     \<lparr>promise = 0, docLanguage = js ''python'', cursor = (0, 4)\<rparr> (js ''python:0'')
     (Some (js ''The sum of a and b'')) 2000 False =
   initialProvider\<lparr>settled := [(0, Resolved [])]\<rparr> \<and>
   length (backendCalls (run initialProvider
     [typing (js ''x = '') 4, Fire 0 (js ''x = '') 1000 False,
      BackendDone 0 (Some (js ''The sum of a and b'')) 2000 False,
      typing (js ''x = '') 4, Fire 1 (js ''x = '') 3000 False])) = 2"
proof -
  have c: "cleanCompletion (js ''The sum of a and b'')
     (docLanguage \<lparr>promise = 0, docLanguage = js ''python'', cursor = (0, 4)\<rparr>) = []"
    by (simp add: sanitizer_eval string_eval)
  have r: "length (backendCalls (run initialProvider
     [typing (js ''x = '') 4, Fire 0 (js ''x = '') 1000 False,
      BackendDone 0 (Some (js ''The sum of a and b'')) 2000 False,
      typing (js ''x = '') 4, Fire 1 (js ''x = '') 3000 False])) = 2"
    using c by (simp add: coordinator_eval typing_def filter_eval string_eval)
  from empty_completion_not_cached [OF c, of "initialProvider\<lparr>isGenerating := True\<rparr>" "js ''python:0''" 2000 False]
  show ?thesis using c r by (simp add: initialProvider_def)
qed

subsection \<open>Reachable states\<close>

lemma wellFormed_initial: "wellFormed initialProvider"
  by (simp add: wellFormed_def initialProvider_def promisesOf_def)

lemma pending_cleared:
  assumes "wellFormed w"
  shows "(case debounceTimer w of Some h \<Rightarrow> clearTimeout h (timers w) | None \<Rightarrow> timers w) = []"
proof (cases "timers w")
  case Nil
  then show ?thesis by (simp add: clearTimeout_def split: option.split)
next
  case (Cons t ts)
  with assms have "ts = []" and "debounceTimer w = Some (fst t)"
    by (simp_all add: wellFormed_def)
  with Cons show ?thesis by (simp add: clearTimeout_def)
qed

lemma wellFormed_settle_new:
  assumes "wellFormed w"
  shows "wellFormed (settle (w\<lparr>nextPromise := Suc (nextPromise w)\<rparr>)
           \<lparr>promise = nextPromise w, docLanguage = l, cursor = c\<rparr> s)"
proof -
  have "\<forall>p \<in> set (promisesOf w). p < nextPromise w"
    using assms by (simp add: wellFormed_def list_all_iff)
  then show ?thesis
    using assms
    by (auto simp: wellFormed_def settle_def promisesOf_def list_all_iff less_Suc_eq)
qed

lemma wellFormed_provide:
  assumes "wellFormed w"
  shows "wellFormed (provideInlineCompletionItems w l pos ln en au)"
proof -
  let ?req = "\<lparr>promise = nextPromise w, docLanguage = l, cursor = pos\<rparr>"
  let ?w = "w\<lparr>nextPromise := Suc (nextPromise w)\<rparr>"
  have lt: "\<forall>p \<in> set (promisesOf w). p < nextPromise w"
    using assms by (simp add: wellFormed_def list_all_iff)
  have sched: "wellFormed (?w\<lparr>timers := [(nextTimer w, ?req)], debounceTimer := Some (nextTimer w),
                     nextTimer := Suc (nextTimer w)\<rparr>)" if "\<not> isGenerating w"
  proof -
    from that assms have "awaiting w = []" by (simp add: wellFormed_def)
    then show ?thesis
      using assms lt that
      by (auto simp: wellFormed_def promisesOf_def list_all_iff less_Suc_eq)
  qed
  have pc: "(case debounceTimer ?w of Some h \<Rightarrow> clearTimeout h (timers ?w) | None \<Rightarrow> timers ?w) = []"
    using pending_cleared [OF assms] by (simp split: option.splits)
  show ?thesis
    unfolding provideInlineCompletionItems_def Let_def
    using wellFormed_settle_new [OF assms] sched pc
    by (auto split: sum.split bool.split simp del: One_nat_def)
qed


lemma wellFormed_fire:
  assumes "wellFormed w"
  shows "wellFormed (fireTimer w h ctx now canc)"
proof (cases "map_of (timers w) h")
  case None
  with assms show ?thesis by (simp add: fireTimer_def)
next
  case (Some req)
  then have "(h, req) \<in> set (timers w)" by (rule map_of_SomeD)
  with assms have tw: "timers w = [(h, req)]"
    by (cases "timers w") (auto simp: wellFormed_def)
  with assms have aw: "awaiting w = []" and ng: "\<not> isGenerating w"
    by (auto simp: wellFormed_def)
  let ?w = "w\<lparr>timers := clearTimeout h (timers w)\<rparr>"
  have cl: "timers ?w = []" by (simp add: tw clearTimeout_def)
  from assms tw have d: "distinct (promise req # map fst (settled w))"
    and lt: "promise req < nextPromise w" "\<forall>p \<in> set (map fst (settled w)). p < nextPromise w"
    by (auto simp: wellFormed_def promisesOf_def aw list_all_iff)
  have "wellFormed (generateCompletions ?w req ctx now canc)"
    using d lt aw ng cl
    by (auto simp: generateCompletions_def startGeneration_def settle_def wellFormed_def
        promisesOf_def list_all_iff Let_def split: option.split)
  with Some show ?thesis by (simp add: fireTimer_def)
qed

lemma wellFormed_backendDone:
  assumes "wellFormed w"
  shows "wellFormed (backendDone w p response now canc)"
proof (cases "find (\<lambda>a. promise (fst a) = p) (awaiting w)")
  case None
  with assms show ?thesis by (simp add: backendDone_def)
next
  case (Some a)
  then have "a \<in> set (awaiting w)" and pa: "promise (fst a) = p"
    by (auto dest: find_Some_set)
  with assms have aw: "awaiting w = [a]"
    by (cases "awaiting w") (auto simp: wellFormed_def)
  with assms have tw: "timers w = []" by (simp add: wellFormed_def)
  let ?w = "w\<lparr>awaiting := filter (\<lambda>a. promise (fst a) \<noteq> p) (awaiting w)\<rparr>"
  have cl: "awaiting ?w = []" by (simp add: aw pa)
  from assms aw have d: "distinct (p # map fst (settled w))"
    and lt: "p < nextPromise w" "\<forall>q \<in> set (map fst (settled w)). q < nextPromise w"
    by (auto simp: wellFormed_def promisesOf_def tw pa list_all_iff)
  have "wellFormed (resumeGeneration ?w (fst a) (snd a) response now canc)"
    using d lt tw cl pa
    by (auto simp: resumeGeneration_def settle_def wellFormed_def promisesOf_def list_all_iff
        Let_def split: option.split)
  with Some show ?thesis by (simp add: backendDone_def)
qed

lemma wellFormed_step: "wellFormed w \<Longrightarrow> wellFormed (step w ev)"
proof (cases ev)
  case ClearCache
  assume "wellFormed w"
  then show ?thesis by (simp add: ClearCache wellFormed_def promisesOf_def)
qed (simp_all add: wellFormed_provide wellFormed_fire wellFormed_backendDone)

lemma wellFormed_run: "wellFormed w \<Longrightarrow> wellFormed (run w evs)"
  unfolding run_def by (induction evs arbitrary: w) (simp_all add: wellFormed_step)

lemma timer_promise_mem:
  "(h, r) \<in> set ts \<Longrightarrow> promise r \<in> (\<lambda>t. promise (snd t)) ` set ts"
  by force

lemma awaiting_promise_mem:
  "(r, k) \<in> set as \<Longrightarrow> promise r \<in> (\<lambda>a. promise (fst a)) ` set as"
  by force

lemma unreferenced_step:
  assumes "unreferenced p w"
  shows "unreferenced p (step w ev)"
proof (cases ev)
  case (Provide l pos ln en au)
  have "shouldProvideCompletion ln (snd pos) l = Inl TypeError \<or>
        shouldProvideCompletion ln (snd pos) l = Inr True \<or>
        shouldProvideCompletion ln (snd pos) l = Inr False"
    by (metis (full_types) error.exhaust sum.exhaust_sel sum.collapse)
  then show ?thesis
    using assms
    by (auto simp: Provide unreferenced_def provideInlineCompletionItems_def settle_def
        promisesOf_def clearTimeout_def Let_def split: option.split dest: timer_promise_mem awaiting_promise_mem)
next
  case (Fire h ctx now canc)
  show ?thesis
  proof (cases "map_of (timers w) h")
    case None
    with assms show ?thesis by (simp add: Fire fireTimer_def)
  next
    case (Some req)
    then have "(h, req) \<in> set (timers w)" by (rule map_of_SomeD)
    then have "promise req \<in> set (promisesOf w)" by (force simp: promisesOf_def)
    with assms have "p \<noteq> promise req" by (auto simp: unreferenced_def)
    then show ?thesis
      using assms Some
      by (auto simp: Fire fireTimer_def generateCompletions_def startGeneration_def settle_def
          unreferenced_def promisesOf_def clearTimeout_def Let_def split: option.split
          dest: timer_promise_mem awaiting_promise_mem)
  qed
next
  case (BackendDone q response now canc)
  show ?thesis
  proof (cases "find (\<lambda>a. promise (fst a) = q) (awaiting w)")
    case None
    with assms show ?thesis by (simp add: BackendDone backendDone_def)
  next
    case (Some a)
    then have "a \<in> set (awaiting w)" by (auto dest: find_Some_set)
    then have "promise (fst a) \<in> set (promisesOf w)" by (force simp: promisesOf_def)
    with assms have "p \<noteq> promise (fst a)" by (auto simp: unreferenced_def)
    then show ?thesis
      using assms Some
      by (auto simp: BackendDone backendDone_def resumeGeneration_def settle_def
          unreferenced_def promisesOf_def Let_def split: option.split dest: timer_promise_mem awaiting_promise_mem)
  qed
next
  case ClearCache
  with assms show ?thesis by (simp add: unreferenced_def promisesOf_def)
qed

lemma unreferenced_run: "unreferenced p w \<Longrightarrow> unreferenced p (run w evs)"
  unfolding run_def by (induction evs arbitrary: w) (simp_all add: unreferenced_step)


lemma scheduled_timers:
  assumes "wellFormed w" "isScheduled w ev"
  shows "\<exists>l pos. timers (step w ev) =
           [(nextTimer w, \<lparr>promise = nextPromise w, docLanguage = l, cursor = pos\<rparr>)] \<and>
         awaiting (step w ev) = awaiting w \<and> settled (step w ev) = settled w \<and>
         nextPromise (step w ev) = Suc (nextPromise w) \<and>
         debounceTimer (step w ev) = Some (nextTimer w)"
proof (cases ev)
  case (Provide l pos ln en au)
  have pc: "(case debounceTimer w of Some h \<Rightarrow> clearTimeout h (timers w) | None \<Rightarrow> timers w) = []"
    by (rule pending_cleared [OF assms(1)])
  from assms(2) show ?thesis
    using pc by (auto simp: Provide isScheduled_def provideInlineCompletionItems_def Let_def
        split: option.splits)
qed (use assms(2) in \<open>simp_all add: isScheduled_def\<close>)

lemma superseded_unreferenced:
  assumes wf: "wellFormed w" and t: "(h, req) \<in> set (timers w)" and ev: "isScheduled w ev"
  shows "unreferenced (promise req) (step w ev)"
proof -
  from wf t have tw: "timers w = [(h, req)]"
    by (cases "timers w") (auto simp: wellFormed_def)
  from wf have "distinct (promisesOf w)" "\<forall>p \<in> set (promisesOf w). p < nextPromise w"
    by (simp_all add: wellFormed_def list_all_iff)
  with tw have np: "promise req \<notin> (\<lambda>a. promise (fst a)) ` set (awaiting w)"
    "promise req \<notin> fst ` set (settled w)" "promise req < nextPromise w"
    by (auto simp: promisesOf_def)
  from scheduled_timers [OF wf ev] np show ?thesis
    by (auto simp: unreferenced_def promisesOf_def)
qed

lemma superseded_never_settles:
  assumes "wellFormed w" "(h, req) \<in> set (timers w)" "isScheduled w ev"
  shows "promise req \<notin> set (promisesOf (run (step w ev) evs))"
  using unreferenced_run [OF superseded_unreferenced [OF assms]]
  by (simp add: unreferenced_def)

lemma backend_call_from_latest_timer:
  assumes "wellFormed w" "backendCalls (step w ev) \<noteq> backendCalls w"
  shows "\<exists>h ctx now canc. ev = Fire h ctx now canc \<and> debounceTimer w = Some h \<and>
           awaiting w = [] \<and> \<not> isGenerating w"
proof (cases ev)
  case (Provide l pos ln en au)
  have "backendCalls (provideInlineCompletionItems w l pos ln en au) = backendCalls w"
    by (auto simp: provideInlineCompletionItems_def settle_def Let_def
        split: sum.split bool.split option.split)
  with assms(2) show ?thesis by (simp add: Provide)
next
  case (Fire h ctx now canc)
  show ?thesis
  proof (cases "map_of (timers w) h")
    case None
    with assms(2) show ?thesis by (simp add: Fire fireTimer_def)
  next
    case (Some req)
    then have "(h, req) \<in> set (timers w)" by (rule map_of_SomeD)
    with assms(1) have "debounceTimer w = Some h" "awaiting w = []" "\<not> isGenerating w"
      by (auto simp: wellFormed_def list_all_iff)
    then show ?thesis by (simp add: Fire)
  qed
next
  case (BackendDone p response now canc)
  have "backendCalls (backendDone w p response now canc) = backendCalls w"
    by (auto simp: backendDone_def resumeGeneration_def settle_def Let_def split: option.split)
  with assms(2) show ?thesis by (simp add: BackendDone)
next
  case ClearCache
  with assms(2) show ?thesis by simp
qed

text \<open>
  In every state the provider reaches the store is within its bound, at most one timeout
  is set, and at most one generation waits for the backend, exactly while the flag is set.
\<close>

lemma cache_step_bounded:
  assumes "length (cache w) \<le> maxCacheSize"
  shows "length (cache (step w ev)) \<le> maxCacheSize"
proof (cases ev)
  case (Provide l pos ln en au)
  have "cache (provideInlineCompletionItems w l pos ln en au) = cache w"
    by (auto simp: provideInlineCompletionItems_def settle_def Let_def
        split: sum.split bool.split option.split)
  with assms show ?thesis by (simp add: Provide)
next
  case (Fire h ctx now canc)
  have "cache (generateCompletions v req ctx now canc) =
      filter (\<lambda>entry. now - timestamp entry < cacheExpiryMs) (cache v)" for v req
    by (simp add: generateCompletions_def startGeneration_def settle_def getCachedCompletion_snd
        Let_def split: option.split)
  then have "length (cache (generateCompletions v req ctx now canc)) \<le> length (cache v)" for v req
    by simp
  from this [of "w\<lparr>timers := clearTimeout h (timers w)\<rparr>"] assms show ?thesis
    by (auto simp: Fire fireTimer_def split: option.split intro: order_trans)
next
  case (BackendDone p response now canc)
  have "length (cache (resumeGeneration v req k response now canc)) \<le> maxCacheSize"
    if "length (cache v) \<le> maxCacheSize" for v req k
    using that
    by (simp add: resumeGeneration_def settle_def length_setCachedCompletion Let_def
        split: option.split)
  from this [of "w\<lparr>awaiting := filter (\<lambda>a. promise (fst a) \<noteq> p) (awaiting w)\<rparr>"] assms
  show ?thesis
    by (simp add: BackendDone backendDone_def split: option.split)
next
  case ClearCache
  then show ?thesis by (simp add: clearCache_def)
qed

lemma cache_reachable_bounded: "length (cache (run initialProvider evs)) \<le> maxCacheSize"
proof -
  have "length (cache w) \<le> maxCacheSize \<Longrightarrow> length (cache (run w evs)) \<le> maxCacheSize" for w
    unfolding run_def by (induction evs arbitrary: w) (simp_all add: cache_step_bounded)
  then show ?thesis by (simp add: initialProvider_def)
qed

lemma one_timer_one_generation:
  "length (timers (run initialProvider evs)) \<le> 1 \<and>
   length (awaiting (run initialProvider evs)) \<le> 1 \<and>
   (isGenerating (run initialProvider evs) \<longleftrightarrow> awaiting (run initialProvider evs) \<noteq> [])"
  using wellFormed_run [OF wellFormed_initial, of evs] by (simp add: wellFormed_def)

subsection \<open>A superseded request\<close>

text \<open>
  Two keystrokes in a row, each passing the filter; then both timeouts come due and the
  backend answers. The first timeout was cleared and does nothing, the second request is
  resolved with the completion, and nothing is left that refers to the first promise.
\<close>

lemma superseded_request_left_pending:
  "run initialProvider
     [typing (js ''x = '') 4, typing (js ''x = 1'') 5,
      Fire 0 (js ''x = '') 1000 False, Fire 1 (js ''x = 1'') 1001 False,
      BackendDone 1 (Some (js ''+ 2'')) 2000 False] =
   \<lparr>cache = [\<lparr>key = createCacheKey (js ''x = 1'') (js ''python''), completion = js ''+ 2'',
               timestamp = 2000\<rparr>],
    isGenerating = False, debounceTimer = Some 1, timers = [], nextTimer = 2, awaiting = [],
    settled = [(1, Resolved [\<lparr>insertText = js ''+ 2'', insertRange = ((0, 5), (0, 5))\<rparr>])],
    nextPromise = 2,
    backendCalls = [(1, buildCompletionPrompt (js ''x = 1'') (js ''python''))]\<rparr>"
proof -
  have c: "cleanCompletion (js ''+ 2'') (js ''python'') = js ''+ 2''"
    by (simp add: sanitizer_eval string_eval)
  show ?thesis
    by (simp add: coordinator_eval typing_def filter_eval string_eval c [unfolded js_def, simplified])
qed

text \<open>
  C1 on the code: the first of two requests is scheduled on timeout 0; the second clears
  that timeout and is scheduled on timeout 1, so only the latest timeout can reach the
  backend. But the promise of the first request, number 0, is not resolved by the second
  call, and whatever happens afterwards it is never settled: the call does not complete
  with an empty result, it does not complete.
\<close>

theorem superseded_request_never_completes:
  "timers (run initialProvider [typing (js ''x = '') 4]) =
     [(0, \<lparr>promise = 0, docLanguage = js ''python'', cursor = (0, 4)\<rparr>)] \<and>
   timers (run initialProvider [typing (js ''x = '') 4, typing (js ''x = 1'') 5]) =
     [(1, \<lparr>promise = 1, docLanguage = js ''python'', cursor = (0, 5)\<rparr>)] \<and>
   settled (run initialProvider [typing (js ''x = '') 4, typing (js ''x = 1'') 5]) = [] \<and>
   (\<forall>evs. map_of (settled (run (run initialProvider
        [typing (js ''x = '') 4, typing (js ''x = 1'') 5]) evs)) 0 = None)"
proof -
  let ?w1 = "run initialProvider [typing (js ''x = '') 4]"
  let ?ev = "typing (js ''x = 1'') 5"
  have t1: "timers ?w1 = [(0, \<lparr>promise = 0, docLanguage = js ''python'', cursor = (0, 4)\<rparr>)]"
    by (simp add: coordinator_eval typing_def filter_eval string_eval)
  have w2: "run initialProvider [typing (js ''x = '') 4, ?ev] = step ?w1 ?ev"
    by (simp add: run_def)
  have t2: "timers (step ?w1 ?ev) = [(1, \<lparr>promise = 1, docLanguage = js ''python'', cursor = (0, 5)\<rparr>)]"
    and s2: "settled (step ?w1 ?ev) = []"
    by (simp_all add: coordinator_eval typing_def filter_eval string_eval)
  have wf: "wellFormed ?w1"
    by (rule wellFormed_run [OF wellFormed_initial])
  have sch: "isScheduled ?w1 ?ev"
    by (simp add: isScheduled_def coordinator_eval typing_def filter_eval string_eval)
  have mem: "(0, \<lparr>promise = 0, docLanguage = js ''python'', cursor = (0, 4)\<rparr>) \<in> set (timers ?w1)"
    by (simp add: t1)
  have "map_of (settled (run (step ?w1 ?ev) evs)) 0 = None" for evs
  proof -
    from superseded_never_settles [OF wf mem sch, of evs]
    have "0 \<notin> fst ` set (settled (run (step ?w1 ?ev) evs))"
      by (simp add: promisesOf_def)
    then show ?thesis by (simp add: map_of_eq_None_iff)
  qed
  with t1 t2 s2 show ?thesis unfolding w2 by blast
qed

end
